theory Spec2Isabelle
  imports Main "HOL-Library.Word"
begin

unbundle bit_operations_syntax

section \<open>Architecture constants (base.go)\<close>

text \<open>
  Go's \<open>uintptr\<close>, \<open>uint\<close> and \<open>unsafe.Pointer\<close> are machine words whose width depends on
  the build target. They are modelled as \<open>'a word\<close>; the build target is the type
  \<open>'a\<close> (\<open>64\<close> for amd64/arm64, \<open>32\<close> for 386/arm). The untyped constants of
  \<open>base.go\<close> are natural numbers computed from that width exactly as the constant
  expressions of the source compute them:

  \<^verbatim>\<open>archADDRSIZE = 32 << uintptr(^uintptr(0)>>63)\<close>
  \<^verbatim>\<open>archWORDSIZE = archADDRSIZE >> 3\<close>
  \<^verbatim>\<open>archMAXTAG   = archWORDSIZE - 1\<close>
  \<^verbatim>\<open>archPTRMASK  = ^uintptr((archADDRSIZE >> 5) + 1)\<close>
\<close>

definition archADDRSIZE :: "'a::len itself \<Rightarrow> nat" where
  "archADDRSIZE T = push_bit (unat (drop_bit 63 (NOT 0 :: 'a word))) 32"

definition archWORDSIZE :: "'a::len itself \<Rightarrow> nat" where
  "archWORDSIZE T = drop_bit 3 (archADDRSIZE T)"

definition archMAXTAG :: "'a::len itself \<Rightarrow> nat" where
  "archMAXTAG T = archWORDSIZE T - 1"

definition archPTRMASK :: "'a::len word" where
  "archPTRMASK = NOT (of_nat (drop_bit 5 (archADDRSIZE TYPE('a)) + 1))"

text \<open>The two package-level error values, and the ways a call can abort: a Go
  \<open>panic\<close> carrying one of them, or the runtime fault of dereferencing an address at
  which no object of the expected type lives.\<close>

datatype error = EPTRINVAL | EPTRINVALT

datatype abort = Panic error | InvalidDeref

section \<open>Pointer tagging\<close>

text \<open>\<^verbatim>\<open>func GetTag(ptr unsafe.Pointer) uint { return uint(uintptr(ptr) & uintptr(archMAXTAG)) }\<close>\<close>

definition GetTag :: "'a::len word \<Rightarrow> 'a word" where
  "GetTag ptr = ptr AND of_nat (archMAXTAG TYPE('a))"

text \<open>\<open>TaggedPointer\<close> panics with \<open>EPTRINVALT\<close> when \<open>tag > archMAXTAG\<close>; otherwise it
  returns the pair of \<open>ptr | tag\<close> and a \<open>nil\<close> error (\<open>None\<close>).\<close>

definition TaggedPointer :: "'a::len word \<Rightarrow> 'a word \<Rightarrow> abort + ('a word \<times> error option)" where
  "TaggedPointer ptr tag =
     (if tag > of_nat (archMAXTAG TYPE('a)) then Inl (Panic EPTRINVALT)
      else Inr (ptr OR tag, None))"

text \<open>\<^verbatim>\<open>func Untag(ptr unsafe.Pointer) unsafe.Pointer { return unsafe.Pointer(uintptr(ptr) & archPTRMASK) }\<close>\<close>

definition Untag :: "'a::len word \<Rightarrow> 'a word" where
  "Untag ptr = ptr AND archPTRMASK"

text \<open>\<^verbatim>\<open>func HasTag(ptr unsafe.Pointer) bool { return GetTag(ptr)&archMAXTAG > 0 }\<close>\<close>

definition HasTag :: "'a::len word \<Rightarrow> bool" where
  "HasTag ptr = (GetTag ptr AND of_nat (archMAXTAG TYPE('a)) > 0)"

section \<open>Memory\<close>

text \<open>
  The functions below work on raw addresses. Memory is a store of pointer-sized words,
  \<open>mem\<close>, from addresses to values; an address that is not mapped (the nil pointer in
  particular) cannot be read or written, and an access to it is the runtime fault
  \<open>InvalidDeref\<close>. The \<open>rdcssDescriptor\<close> objects that \<open>RDCSS\<close> allocates live in a heap of
  their own, \<open>descs\<close>, indexed by the address the allocator returned: a freshly allocated
  descriptor overlaps none of the words that existed before the call. \<open>logs\<close> collects
  the lines written with \<open>log.Println\<close>. The nil pointer is \<open>0\<close>.
\<close>

record 'p rdcssDescriptor =
  a1 :: 'p  \<comment> \<open>control address\<close>
  o1 :: 'p  \<comment> \<open>expected value\<close>
  a2 :: 'p  \<comment> \<open>data address\<close>
  o2 :: 'p  \<comment> \<open>old value\<close>
  n :: 'p   \<comment> \<open>new value\<close>

record 'p state =
  mem :: "'p \<rightharpoonup> 'p"
  descs :: "'p \<rightharpoonup> 'p rdcssDescriptor"
  logs :: "string list"

text \<open>A read \<open>*addr\<close>.\<close>

definition load :: "'p \<Rightarrow> 'p state \<Rightarrow> abort + 'p" where
  "load addr s = (case mem s addr of None \<Rightarrow> Inl InvalidDeref | Some v \<Rightarrow> Inr v)"

text \<open>\<open>atomic.CompareAndSwapPointer(addr, old, new)\<close>: one atomic step.\<close>

definition CompareAndSwapPointer :: "'p \<Rightarrow> 'p \<Rightarrow> 'p \<Rightarrow> 'p state \<Rightarrow> abort + (bool \<times> 'p state)" where
  "CompareAndSwapPointer addr old new s =
     (case mem s addr of
        None \<Rightarrow> Inl InvalidDeref
      | Some v \<Rightarrow>
          if v = old then Inr (True, s\<lparr>mem := (mem s)(addr \<mapsto> new)\<rparr>) else Inr (False, s))"

section \<open>Slot atomics\<close>

text \<open>
  \<open>addr\<close> points to a slice header, whose first word is the address of the slice's
  data; \<open>*(*uintptr)(addr)\<close> reads it. \<open>index\<close> is the bit pattern of the Go \<open>int\<close>,
  which \<open>uintptr(index)\<close> keeps; the multiplication and the addition wrap. Neither
  function checks the index against the length of the slice; reading the header or
  the slot at an unmapped address is a fault. \<open>OffsetSliceSlot\<close> only computes the
  address of the slot.
  \<open>CASSliceSlot\<close> passes \<open>target\<close> as the \<open>old\<close> and \<open>data\<close> as the \<open>new\<close> argument of
  \<open>atomic.CompareAndSwapPointer\<close>.
\<close>

definition CASSliceSlot ::
  "'a::len word \<Rightarrow> 'a word \<Rightarrow> 'a word \<Rightarrow> 'a word \<Rightarrow> 'a word \<Rightarrow> 'a word state
     \<Rightarrow> abort + (bool \<times> 'a word state)" where
  "CASSliceSlot addr data target index ptrsize s =
     (case load addr s of
        Inl e \<Rightarrow> Inl e
      | Inr base \<Rightarrow>
          let tptr = base + ptrsize * index;
              cptr = tptr
          in CompareAndSwapPointer cptr target data s)"

definition OffsetSliceSlot :: "'a::len word \<Rightarrow> 'a word \<Rightarrow> 'a word \<Rightarrow> 'a word state \<Rightarrow> abort + 'a word" where
  "OffsetSliceSlot addr index ptrsize s =
     (case load addr s of
        Inl e \<Rightarrow> Inl e
      | Inr base \<Rightarrow> Inr (base + ptrsize * index))"

definition SetSliceSlot ::
  "'a::len word \<Rightarrow> 'a word \<Rightarrow> 'a word \<Rightarrow> 'a word \<Rightarrow> 'a word state \<Rightarrow> abort + (bool \<times> 'a word state)" where
  "SetSliceSlot addr index ptrsize d s = CASSliceSlot addr d 0 index ptrsize s"

section \<open>RDCSS\<close>

text \<open>
  \<open>RDCSSComplete d\<close>: \<open>dptr\<close> is the value of the parameter \<open>d\<close>, \<open>tgdptr\<close> is \<open>dptr\<close> with
  tag 1, and the descriptor is read through \<open>Untag dptr\<close>. The control word \<open>*desc.a1\<close>
  is compared first; only when it equals \<open>desc.o1\<close> is the swap to \<open>desc.n\<close> attempted
  (Go's \<open>&&\<close>). Otherwise, or when that swap fails, the swap back to \<open>desc.o2\<close> is
  attempted and a line is logged when it fails.
\<close>

definition RDCSSComplete :: "'a::len word \<Rightarrow> 'a word state \<Rightarrow> abort + (bool \<times> 'a word state)" where
  "RDCSSComplete d s =
     (let dptr = d in
      case TaggedPointer dptr 1 of
        Inl e \<Rightarrow> Inl e
      | Inr (tgdptr, _) \<Rightarrow>
          (case descs s (Untag dptr) of
             None \<Rightarrow> Inl InvalidDeref
           | Some desc \<Rightarrow>
               (case load (a1 desc) s of
                  Inl e \<Rightarrow> Inl e
                | Inr c \<Rightarrow>
                    (case (if c = o1 desc
                           then CompareAndSwapPointer (a2 desc) tgdptr (n desc) s
                           else Inr (False, s)) of
                       Inl e \<Rightarrow> Inl e
                     | Inr (True, s1) \<Rightarrow> Inr (True, s1)
                     | Inr (False, s1) \<Rightarrow>
                         (case CompareAndSwapPointer (a2 desc) tgdptr (o2 desc) s1 of
                            Inl e \<Rightarrow> Inl e
                          | Inr (restored, s2) \<Rightarrow>
                              if \<not> restored
                              then Inr (False, s2\<lparr>logs := logs s2 @ [''[-] restoration failed.'']\<rparr>)
                              else Inr (False, s2))))))"

text \<open>
  \<open>RDCSS\<close> allocates the descriptor. \<open>daddr\<close> is the address the allocator returns for
  \<open>&rdcssDescriptor{a1, o1, a2, o2, n}\<close>; it is a parameter of the model.
\<close>

definition RDCSS ::
  "'a::len word \<Rightarrow> 'a word \<Rightarrow> 'a word \<Rightarrow> 'a word \<Rightarrow> 'a word \<Rightarrow> 'a word \<Rightarrow> 'a word state
     \<Rightarrow> abort + (bool \<times> 'a word state)" where
  "RDCSS a1' o1' a2' o2' n' daddr s =
     (let desc = \<lparr>a1 = a1', o1 = o1', a2 = a2', o2 = o2', n = n'\<rparr>;
          s0 = s\<lparr>descs := (descs s)(daddr \<mapsto> desc)\<rparr>
      in case TaggedPointer daddr 1 of
           Inl e \<Rightarrow> Inl e
         | Inr (dptr, _) \<Rightarrow>
             (case CompareAndSwapPointer (a2 desc) (o2 desc) dptr s0 of
                Inl e \<Rightarrow> Inl e
              | Inr (True, s1) \<Rightarrow> RDCSSComplete daddr s1
              | Inr (False, s1) \<Rightarrow> Inr (False, s1)))"

text \<open>\<^verbatim>\<open>func IsRDCSSDescriptor(addr unsafe.Pointer) bool { return HasTag(addr) }\<close>\<close>

definition IsRDCSSDescriptor :: "'a::len word \<Rightarrow> bool" where
  "IsRDCSSDescriptor addr = HasTag addr"

section \<open>Utility\<close>

text \<open>\<open>roundP2\<close> works on \<open>uint64\<close> on every target; \<open>v--\<close> and \<open>v++\<close> wrap.\<close>

definition roundP2 :: "64 word \<Rightarrow> 64 word" where
  "roundP2 v0 =
     (let v = v0 - 1;
          v = v OR drop_bit 1 v;
          v = v OR drop_bit 2 v;
          v = v OR drop_bit 4 v;
          v = v OR drop_bit 8 v;
          v = v OR drop_bit 16 v;
          v = v OR drop_bit 32 v;
          v = v + 1
      in v)"

text \<open>The cascade of shifts and ORs in the middle of \<open>roundP2\<close>, on its own: it copies
  every set bit into all lower positions.\<close>

definition smear :: "64 word \<Rightarrow> 64 word" where
  "smear w =
     (let v = w;
          v = v OR drop_bit 1 v;
          v = v OR drop_bit 2 v;
          v = v OR drop_bit 4 v;
          v = v OR drop_bit 8 v;
          v = v OR drop_bit 16 v;
          v = v OR drop_bit 32 v
      in v)"

text \<open>The powers of two that a \<open>uint64\<close> can hold.\<close>

definition is_pow2 :: "64 word \<Rightarrow> bool" where
  "is_pow2 p \<longleftrightarrow> (\<exists>k\<in>{0..<64}. p = 2 ^ k)"

section \<open>Two threads: interleaving of the atomic steps\<close>

text \<open>
  For two threads that call \<open>RDCSS\<close> at the same time, a call is cut at its accesses to
  shared memory, each of which is one atomic step. The program counter of a thread says
  which access comes next:
  \<^item> \<open>AtAlloc\<close>: \<open>desc = &rdcssDescriptor{a1, o1, a2, o2, n}\<close>, the allocation;
  \<^item> \<open>AtInstall\<close>: \<open>atomic.CompareAndSwapPointer(desc.a2, desc.o2, dptr)\<close> in \<open>RDCSS\<close>;
    on failure \<open>RDCSS\<close> returns false, on success it calls \<open>RDCSSComplete\<close>;
  \<^item> \<open>AtControl\<close>: the read \<open>*desc.a1\<close> and its comparison with \<open>desc.o1\<close>;
  \<^item> \<open>AtCommit\<close>: \<open>atomic.CompareAndSwapPointer(desc.a2, tgdptr, desc.n)\<close>, reached when
    the comparison held; on success \<open>RDCSSComplete\<close> returns true;
  \<^item> \<open>AtRestore\<close>: \<open>atomic.CompareAndSwapPointer(desc.a2, tgdptr, desc.o2)\<close>, with the log
    line when it fails; \<open>RDCSSComplete\<close> returns false;
  \<^item> \<open>Returned b\<close>: the call has returned \<open>b\<close>.

  The operations of \<open>sync/atomic\<close> are sequentially consistent, so an execution of two
  threads is an interleaving of these steps. The locals \<open>tgdptr\<close> and \<open>desc\<close> of
  \<open>RDCSSComplete\<close> are functions of the descriptor address and the descriptor heap;
  \<open>locals\<close> computes them, in the order of the source. A descriptor is never written
  after its allocation, so a step that computes them again gets the values that the
  source computed once (\<open>steps_RDCSS\<close> and \<open>steps_RDCSSComplete\<close> below compare the steps of
  one thread with the two functions).
\<close>

datatype pc = AtAlloc | AtInstall | AtControl | AtCommit | AtRestore | Returned bool

definition locals :: "'a::len word \<Rightarrow> 'a word state \<Rightarrow> abort + ('a word \<times> 'a word rdcssDescriptor)" where
  "locals d s =
     (let dptr = d in
      case TaggedPointer dptr 1 of
        Inl e \<Rightarrow> Inl e
      | Inr (tgdptr, _) \<Rightarrow>
          (case descs s (Untag dptr) of
             None \<Rightarrow> Inl InvalidDeref
           | Some desc \<Rightarrow> Inr (tgdptr, desc)))"

definition thread_step ::
  "'a::len word rdcssDescriptor \<Rightarrow> 'a word \<Rightarrow> pc \<Rightarrow> 'a word state \<Rightarrow> abort + (pc \<times> 'a word state)" where
  "thread_step call daddr p s =
     (case p of
        AtAlloc \<Rightarrow> Inr (AtInstall, s\<lparr>descs := (descs s)(daddr \<mapsto> call)\<rparr>)
      | AtInstall \<Rightarrow>
          (case TaggedPointer daddr 1 of
             Inl e \<Rightarrow> Inl e
           | Inr (dptr, _) \<Rightarrow>
               (case CompareAndSwapPointer (a2 call) (o2 call) dptr s of
                  Inl e \<Rightarrow> Inl e
                | Inr (True, s1) \<Rightarrow> Inr (AtControl, s1)
                | Inr (False, s1) \<Rightarrow> Inr (Returned False, s1)))
      | AtControl \<Rightarrow>
          (case locals daddr s of
             Inl e \<Rightarrow> Inl e
           | Inr (tgdptr, desc) \<Rightarrow>
               (case load (a1 desc) s of
                  Inl e \<Rightarrow> Inl e
                | Inr c \<Rightarrow> if c = o1 desc then Inr (AtCommit, s) else Inr (AtRestore, s)))
      | AtCommit \<Rightarrow>
          (case locals daddr s of
             Inl e \<Rightarrow> Inl e
           | Inr (tgdptr, desc) \<Rightarrow>
               (case CompareAndSwapPointer (a2 desc) tgdptr (n desc) s of
                  Inl e \<Rightarrow> Inl e
                | Inr (True, s1) \<Rightarrow> Inr (Returned True, s1)
                | Inr (False, s1) \<Rightarrow> Inr (AtRestore, s1)))
      | AtRestore \<Rightarrow>
          (case locals daddr s of
             Inl e \<Rightarrow> Inl e
           | Inr (tgdptr, desc) \<Rightarrow>
               (case CompareAndSwapPointer (a2 desc) tgdptr (o2 desc) s of
                  Inl e \<Rightarrow> Inl e
                | Inr (True, s1) \<Rightarrow> Inr (Returned False, s1)
                | Inr (False, s1) \<Rightarrow>
                    Inr (Returned False, s1\<lparr>logs := logs s1 @ [''[-] restoration failed.'']\<rparr>)))
      | Returned b \<Rightarrow> Inr (Returned b, s))"

text \<open>\<open>steps k\<close> runs one thread alone for \<open>k\<close> steps.\<close>

fun steps :: "nat \<Rightarrow> 'a::len word rdcssDescriptor \<Rightarrow> 'a word \<Rightarrow> pc \<Rightarrow> 'a word state \<Rightarrow> abort + (pc \<times> 'a word state)" where
  "steps 0 call daddr p s = Inr (p, s)"
| "steps (Suc k) call daddr p s =
     (case thread_step call daddr p s of
        Inl e \<Rightarrow> Inl e
      | Inr (p', s') \<Rightarrow> steps k call daddr p' s')"

text \<open>
  A schedule is the list of the threads that take the successive steps. A thread is
  given by the arguments of its call and the address of its descriptor. \<open>run\<close> executes
  a schedule from the program counters of the two threads and the shared state; a step
  scheduled for a thread that has returned changes nothing.
\<close>

datatype thread_id = First | Second

fun run ::
  "'a::len word rdcssDescriptor \<times> 'a word \<Rightarrow> 'a word rdcssDescriptor \<times> 'a word \<Rightarrow> thread_id list
     \<Rightarrow> pc \<times> pc \<times> 'a word state \<Rightarrow> abort + (pc \<times> pc \<times> 'a word state)" where
  "run T1 T2 [] c = Inr c"
| "run T1 T2 (First # sched) (p1, p2, s) =
     (case thread_step (fst T1) (snd T1) p1 s of
        Inl e \<Rightarrow> Inl e
      | Inr (p1', s') \<Rightarrow> run T1 T2 sched (p1', p2, s'))"
| "run T1 T2 (Second # sched) (p1, p2, s) =
     (case thread_step (fst T2) (snd T2) p2 s of
        Inl e \<Rightarrow> Inl e
      | Inr (p2', s') \<Rightarrow> run T1 T2 sched (p1, p2', s'))"

text \<open>The number of steps a thread can still take.\<close>

fun rank :: "pc \<Rightarrow> nat" where
  "rank AtAlloc = 5"
| "rank AtInstall = 4"
| "rank AtControl = 3"
| "rank AtCommit = 2"
| "rank AtRestore = 1"
| "rank (Returned b) = 0"

text \<open>
  The invariant of two racing calls with the same addresses and expected values. A
  thread is \<open>losing\<close> while it has not installed its descriptor or has returned false; it
  is \<open>winning\<close> while its descriptor is installed and it is about to read the control
  word or to commit, or when it has returned true and the data word holds its new value.
\<close>

definition losing :: "pc \<Rightarrow> bool" where
  "losing p \<longleftrightarrow> p = AtAlloc \<or> p = AtInstall \<or> p = Returned False"

definition winning :: "'a::len word rdcssDescriptor \<Rightarrow> 'a word \<Rightarrow> pc \<Rightarrow> 'a word state \<Rightarrow> bool" where
  "winning call d p s \<longleftrightarrow>
     ((p = AtControl \<or> p = AtCommit) \<and> mem s (a2 call) = Some (d OR 1))
     \<or> (p = Returned True \<and> mem s (a2 call) = Some (n call))"

definition race_inv ::
  "'a::len word rdcssDescriptor \<times> 'a word \<Rightarrow> 'a word rdcssDescriptor \<times> 'a word
     \<Rightarrow> pc \<times> pc \<times> 'a word state \<Rightarrow> bool" where
  "race_inv T1 T2 c =
     (case c of (p1, p2, s) \<Rightarrow>
        mem s (a1 (fst T1)) = Some (o1 (fst T1))
        \<and> (p1 \<noteq> AtAlloc \<longrightarrow> descs s (snd T1) = Some (fst T1))
        \<and> (p2 \<noteq> AtAlloc \<longrightarrow> descs s (snd T2) = Some (fst T2))
        \<and> (((p1 = AtAlloc \<or> p1 = AtInstall) \<and> (p2 = AtAlloc \<or> p2 = AtInstall)
               \<and> mem s (a2 (fst T1)) = Some (o2 (fst T1)))
            \<or> (winning (fst T1) (snd T1) p1 s \<and> losing p2)
            \<or> (winning (fst T2) (snd T2) p2 s \<and> losing p1)))"

definition race_params ::
  "'a::len word rdcssDescriptor \<times> 'a word \<Rightarrow> 'a word rdcssDescriptor \<times> 'a word \<Rightarrow> bool" where
  "race_params T1 T2 \<longleftrightarrow>
     a1 (fst T2) = a1 (fst T1) \<and> o1 (fst T2) = o1 (fst T1)
     \<and> a2 (fst T2) = a2 (fst T1) \<and> o2 (fst T2) = o2 (fst T1)
     \<and> a1 (fst T1) \<noteq> a2 (fst T1)
     \<and> GetTag (snd T1) = 0 \<and> GetTag (snd T2) = 0 \<and> snd T1 \<noteq> snd T2
     \<and> o2 (fst T1) \<noteq> snd T1 OR 1 \<and> o2 (fst T1) \<noteq> snd T2 OR 1
     \<and> n (fst T1) \<noteq> o2 (fst T1) \<and> n (fst T2) \<noteq> o2 (fst T1)"

section \<open>Values of the constants\<close>

lemma archADDRSIZE_64: "archADDRSIZE TYPE(64) = 64"
  by (simp add: archADDRSIZE_def)

lemma archADDRSIZE_32: "archADDRSIZE TYPE(32) = 32"
  by (simp add: archADDRSIZE_def)

lemma archMAXTAG_64: "archMAXTAG TYPE(64) = 7"
  by (simp add: archMAXTAG_def archWORDSIZE_def archADDRSIZE_64)

lemma archMAXTAG_32: "archMAXTAG TYPE(32) = 3"
  by (simp add: archMAXTAG_def archWORDSIZE_def archADDRSIZE_32)

lemma archPTRMASK_64: "(archPTRMASK :: 64 word) = NOT 3"
  by (simp add: archPTRMASK_def archADDRSIZE_64)

lemma archPTRMASK_32: "(archPTRMASK :: 32 word) = NOT 2"
  by (simp add: archPTRMASK_def archADDRSIZE_32)

section \<open>Pointer tagging: lemmas\<close>

lemma TaggedPointer_one_64: "TaggedPointer (d::64 word) 1 = Inr (d OR 1, None)"
  by (simp add: TaggedPointer_def archMAXTAG_64)

lemma TaggedPointer_one_32: "TaggedPointer (d::32 word) 1 = Inr (d OR 1, None)"
  by (simp add: TaggedPointer_def archMAXTAG_32)

lemma low3_clear:
  fixes d :: "'a::len word"
  assumes "d AND 7 = 0" "i < 3"
  shows "\<not> bit d i"
proof -
  have "d AND mask 3 = 0" using assms(1) by (simp add: mask_eq_exp_minus_1)
  then have "\<not> bit (d AND mask 3) i" by simp
  with assms(2) show ?thesis
    by (auto simp: bit_and_iff bit_mask_iff dest: bit_imp_le_length)
qed

lemma low3_small:
  fixes t :: "64 word"
  assumes "t \<le> 7" "bit t i"
  shows "i < 3"
proof -
  have "t < 2 ^ 3" using assms(1) by (simp add: word_less_nat_alt word_le_nat_alt)
  then have "t AND mask 3 = t" by (simp add: less_mask_eq)
  then have "bit (t AND mask 3) i" using assms(2) by simp
  then show ?thesis by (simp add: bit_and_iff bit_mask_iff)
qed

text \<open>On a 64-bit target an address without tag bits has its three low bits clear, and
  \<open>Untag\<close>, which clears the two lowest, leaves it as it is.\<close>

lemma Untag_aligned_64:
  assumes "GetTag (d::64 word) = 0"
  shows "Untag d = d"
proof -
  have a: "d AND 7 = 0" using assms by (simp add: GetTag_def archMAXTAG_64)
  have m: "(3::64 word) = mask 2" by (simp add: mask_eq_exp_minus_1)
  have "d AND NOT (mask 2) = d"
    by (rule bit_eqI) (use low3_clear[OF a] in \<open>auto simp: bit_and_iff bit_not_iff bit_mask_iff\<close>)
  then show ?thesis by (simp add: Untag_def archPTRMASK_64 m)
qed

text \<open>The half of the round trip that holds: \<open>GetTag\<close> reads back every tag up to
  \<open>archMAXTAG\<close> from an aligned address.\<close>

lemma GetTag_TaggedPointer_64:
  assumes "GetTag (a::64 word) = 0" "t \<le> 7"
  shows "\<exists>p. TaggedPointer a t = Inr (p, None) \<and> GetTag p = t"
proof -
  have a: "a AND 7 = 0" using assms(1) by (simp add: GetTag_def archMAXTAG_64)
  have m: "(7::64 word) = mask 3" by (simp add: mask_eq_exp_minus_1)
  have "(a OR t) AND mask 3 = t"
    by (rule bit_eqI)
      (use low3_clear[OF a] low3_small[OF assms(2)] in \<open>auto simp: bit_and_iff bit_or_iff bit_mask_iff\<close>)
  then have "GetTag (a OR t) = t" by (simp add: GetTag_def archMAXTAG_64 m)
  moreover have "TaggedPointer a t = Inr (a OR t, None)"
    using assms(2) by (simp add: TaggedPointer_def archMAXTAG_64 not_less)
  ultimately show ?thesis by simp
qed

text \<open>\<open>Untag\<close> on a 64-bit target clears bits 0 and 1 and keeps bit 2, which \<open>GetTag\<close> and
  \<open>HasTag\<close> count as a tag bit.\<close>

lemma bit_Untag_64: "bit (Untag (p::64 word)) i \<longleftrightarrow> bit p i \<and> 2 \<le> i"
proof -
  have m: "(3::64 word) = mask 2" by (simp add: mask_eq_exp_minus_1)
  show ?thesis
    by (auto simp: Untag_def archPTRMASK_64 m bit_and_iff bit_not_iff bit_mask_iff
        dest: bit_imp_le_length)
qed

section \<open>Slot atomics: lemmas\<close>

text \<open>What \<open>CASSliceSlot\<close> does when the slice header and the slot are mapped: the slot is
  compared with \<open>target\<close>, its third parameter, and on a match \<open>data\<close>, its second
  parameter, is written.\<close>

lemma CASSliceSlot_eq:
  assumes "mem s addr = Some base" and "mem s (base + ptrsize * index) = Some v"
  shows "CASSliceSlot addr data target index ptrsize s =
           (if v = target
            then Inr (True, s\<lparr>mem := (mem s)(base + ptrsize * index \<mapsto> data)\<rparr>)
            else Inr (False, s))"
  using assms by (simp add: CASSliceSlot_def load_def CompareAndSwapPointer_def Let_def)

lemma CASSliceSlot_faults:
  "mem s addr = None \<Longrightarrow> CASSliceSlot addr data target index ptrsize s = Inl InvalidDeref"
  "mem s addr = Some base \<Longrightarrow> mem s (base + ptrsize * index) = None
     \<Longrightarrow> CASSliceSlot addr data target index ptrsize s = Inl InvalidDeref"
  by (simp_all add: CASSliceSlot_def load_def CompareAndSwapPointer_def Let_def)

section \<open>RDCSS: lemmas\<close>

text \<open>\<open>RDCSSComplete\<close> in any state in which the descriptor at \<open>daddr\<close> is installed, that
  is, the data word holds its tagged address.\<close>

lemma RDCSSComplete_installed:
  fixes s :: "64 word state"
  assumes "GetTag daddr = 0"
      and "descs s daddr = Some desc"
      and "mem s (a2 desc) = Some (daddr OR 1)"
      and "mem s (a1 desc) = Some c"
  shows "RDCSSComplete daddr s =
           (if c = o1 desc
            then Inr (True, s\<lparr>mem := (mem s)(a2 desc \<mapsto> n desc)\<rparr>)
            else Inr (False, s\<lparr>mem := (mem s)(a2 desc \<mapsto> o2 desc)\<rparr>))"
  using assms
  by (simp add: RDCSSComplete_def TaggedPointer_one_64 Untag_aligned_64 CompareAndSwapPointer_def
      load_def)

text \<open>A whole call of \<open>RDCSS\<close> that no other thread interferes with. The control word is
  read after the descriptor has been installed, so it is read from the memory in which
  the data word holds the tagged descriptor address.\<close>

lemma RDCSS_eq:
  fixes s :: "64 word state"
  assumes "GetTag daddr = 0" and "mem s a2' = Some v2" and "((mem s)(a2' \<mapsto> daddr OR 1)) a1' = Some c"
  shows "RDCSS a1' o1' a2' o2' n' daddr s =
     (let s0 = s\<lparr>descs := (descs s)(daddr \<mapsto> \<lparr>a1 = a1', o1 = o1', a2 = a2', o2 = o2', n = n'\<rparr>)\<rparr>
      in if v2 \<noteq> o2' then Inr (False, s0)
         else if c = o1'
              then Inr (True, s0\<lparr>mem := (mem s)(a2' \<mapsto> n')\<rparr>)
              else Inr (False, s0))"
proof (cases "v2 = o2'")
  case False
  then show ?thesis using assms
    by (simp add: RDCSS_def TaggedPointer_one_64 CompareAndSwapPointer_def Let_def)
next
  case True
  let ?desc = "\<lparr>a1 = a1', o1 = o1', a2 = a2', o2 = o2', n = n'\<rparr>"
  let ?s1 = "s\<lparr>descs := (descs s)(daddr \<mapsto> ?desc), mem := (mem s)(a2' \<mapsto> daddr OR 1)\<rparr>"
  have c: "RDCSSComplete daddr ?s1 =
           (if c = o1'
            then Inr (True, ?s1\<lparr>mem := (mem ?s1)(a2' \<mapsto> n')\<rparr>)
            else Inr (False, ?s1\<lparr>mem := (mem ?s1)(a2' \<mapsto> o2')\<rparr>))"
    using RDCSSComplete_installed[of daddr ?s1 ?desc c] assms by simp
  have restore: "(mem s)(a2' \<mapsto> o2') = mem s"
    using assms(2) True by (simp add: map_upd_triv)
  show ?thesis using True assms(2) c restore
    by (simp add: RDCSS_def TaggedPointer_one_64 CompareAndSwapPointer_def Let_def)
qed

text \<open>When the control address and the data address are the same word, the installed
  descriptor itself makes the control comparison fail: the call rolls back although
  both comparisons held when it started.\<close>

lemma RDCSS_same_address:
  fixes s :: "64 word state"
  assumes "GetTag daddr = 0" "mem s a = Some o'" "o' \<noteq> daddr OR 1"
  shows "\<exists>s'. RDCSS a o' a o' n' daddr s = Inr (False, s') \<and> mem s' = mem s"
  using assms RDCSS_eq[of daddr s a o' a "daddr OR 1" o' o' n'] by (simp add: Let_def)

text \<open>A data or control address that is not mapped is a fault.\<close>

lemma RDCSS_faults:
  fixes s :: "64 word state"
  shows "mem s a2' = None \<Longrightarrow> RDCSS a1' o1' a2' o2' n' daddr s = Inl InvalidDeref"
    and "GetTag daddr = 0 \<Longrightarrow> mem s a2' = Some o2' \<Longrightarrow> a1' \<noteq> a2' \<Longrightarrow> mem s a1' = None
           \<Longrightarrow> RDCSS a1' o1' a2' o2' n' daddr s = Inl InvalidDeref"
  by (simp_all add: RDCSS_def RDCSSComplete_def TaggedPointer_one_64 CompareAndSwapPointer_def
      Untag_aligned_64 load_def Let_def)

section \<open>Rounding to a power of two: lemmas\<close>

lemma roundP2_smear: "roundP2 v = smear (v - 1) + 1"
  by (simp add: roundP2_def smear_def Let_def)

lemma smear_step:
  fixes v w :: "64 word"
  assumes "\<And>i. bit v i \<longleftrightarrow> (\<exists>d<m. bit w (i + d))"
  shows "bit (v OR drop_bit m v) i \<longleftrightarrow> (\<exists>d<2 * m. bit w (i + d))"
proof
  assume "bit (v OR drop_bit m v) i"
  then have "bit v i \<or> bit v (m + i)"
    by (simp add: bit_or_iff bit_drop_bit_eq)
  then show "\<exists>d<2 * m. bit w (i + d)"
  proof
    assume "bit v i"
    then obtain d where "d < m" "bit w (i + d)" using assms by blast
    then show ?thesis by (intro exI[of _ d]) simp
  next
    assume "bit v (m + i)"
    then obtain d where "d < m" "bit w (m + i + d)" using assms by blast
    then show ?thesis by (intro exI[of _ "m + d"]) (simp add: ac_simps)
  qed
next
  assume "\<exists>d<2 * m. bit w (i + d)"
  then obtain d where d: "d < 2 * m" "bit w (i + d)" by blast
  show "bit (v OR drop_bit m v) i"
  proof (cases "d < m")
    case True
    with d have "bit v i" using assms by blast
    then show ?thesis by (simp add: bit_or_iff)
  next
    case False
    then have "d - m < m" "m + i + (d - m) = i + d" using d by simp_all
    with d have "bit v (m + i)" using assms[of "m + i"] by metis
    then show ?thesis by (simp add: bit_or_iff bit_drop_bit_eq)
  qed
qed

lemma bit_smear: "bit (smear w) i \<longleftrightarrow> (\<exists>d<64. bit w (i + d))"
proof -
  define v1 where "v1 = w OR drop_bit 1 w"
  define v2 where "v2 = v1 OR drop_bit 2 v1"
  define v3 where "v3 = v2 OR drop_bit 4 v2"
  define v4 where "v4 = v3 OR drop_bit 8 v3"
  define v5 where "v5 = v4 OR drop_bit 16 v4"
  define v6 where "v6 = v5 OR drop_bit 32 v5"
  have s: "smear w = v6"
    by (simp add: smear_def Let_def v1_def v2_def v3_def v4_def v5_def v6_def)
  have b0: "bit w i \<longleftrightarrow> (\<exists>d<1. bit w (i + d))" for i by simp
  have b1: "bit v1 i \<longleftrightarrow> (\<exists>d<2. bit w (i + d))" for i
    unfolding v1_def using smear_step[of w 1 w i, OF b0] by simp
  have b2: "bit v2 i \<longleftrightarrow> (\<exists>d<4. bit w (i + d))" for i
    unfolding v2_def using smear_step[of v1 2 w i, OF b1] by simp
  have b3: "bit v3 i \<longleftrightarrow> (\<exists>d<8. bit w (i + d))" for i
    unfolding v3_def using smear_step[of v2 4 w i, OF b2] by simp
  have b4: "bit v4 i \<longleftrightarrow> (\<exists>d<16. bit w (i + d))" for i
    unfolding v4_def using smear_step[of v3 8 w i, OF b3] by simp
  have b5: "bit v5 i \<longleftrightarrow> (\<exists>d<32. bit w (i + d))" for i
    unfolding v5_def using smear_step[of v4 16 w i, OF b4] by simp
  have b6: "bit v6 i \<longleftrightarrow> (\<exists>d<64. bit w (i + d))" for i
    unfolding v6_def using smear_step[of v5 32 w i, OF b5] by simp
  show ?thesis unfolding s by (rule b6)
qed

lemma top_bit:
  fixes w :: "64 word"
  assumes "w \<noteq> 0"
  obtains k where "bit w k" "\<And>j. k < j \<Longrightarrow> \<not> bit w j"
proof -
  let ?S = "{i. bit w i}"
  have fin: "finite ?S"
    by (rule finite_subset[of _ "{..<64}"]) (auto dest: bit_imp_le_length)
  have ne: "?S \<noteq> {}" using assms by (auto simp: bit_eq_iff)
  have "bit w (Max ?S)" using Max_in[OF fin ne] by simp
  moreover have "\<not> bit w j" if "Max ?S < j" for j
  proof
    assume "bit w j"
    then have "j \<in> ?S" by simp
    then have "j \<le> Max ?S" by (rule Max_ge[OF fin])
    with that show False by simp
  qed
  ultimately show thesis by (rule that)
qed

lemma smear_top:
  fixes w :: "64 word"
  assumes "bit w k" "\<And>j. k < j \<Longrightarrow> \<not> bit w j"
  shows "smear w = mask (Suc k)"
proof (rule bit_eqI)
  fix i
  have k: "k < 64" using bit_imp_le_length[OF assms(1)] by simp
  show "bit (smear w) i \<longleftrightarrow> bit (mask (Suc k) :: 64 word) i"
  proof (cases "i \<le> k")
    case True
    then have "k - i < 64" "i + (k - i) = k" using k by simp_all
    then have "\<exists>d<64. bit w (i + d)" using assms(1) by metis
    then show ?thesis using True k by (simp add: bit_smear bit_mask_iff)
  next
    case False
    then have "\<not> bit w (i + d)" for d using assms(2)[of "i + d"] by simp
    then show ?thesis using False by (simp add: bit_smear bit_mask_iff)
  qed
qed

lemma unat_exp_64:
  assumes "k < 64"
  shows "unat (2 ^ k :: 64 word) = 2 ^ k"
proof -
  have lt: "(2::nat) ^ k < 2 ^ LENGTH(64)"
    using assms by (intro power_strict_increasing) simp_all
  have "unat (2 ^ k :: 64 word) = unat (of_nat (2 ^ k) :: 64 word)" by simp
  also have "\<dots> = 2 ^ k mod 2 ^ LENGTH(64)" by (rule unat_of_nat)
  also have "\<dots> = 2 ^ k" using lt by (rule mod_less)
  finally show ?thesis .
qed

lemma top_bit_bounds:
  fixes w :: "64 word"
  assumes "bit w k" "\<And>j. k < j \<Longrightarrow> \<not> bit w j"
  shows "2 ^ k \<le> unat w" "unat w < 2 ^ Suc k"
proof -
  have k: "k < 64" using bit_imp_le_length[OF assms(1)] by simp
  have "w AND 2 ^ k = 2 ^ k"
    by (rule bit_eqI) (use assms(1) in \<open>auto simp: bit_and_iff bit_exp_iff\<close>)
  then have "(2 ^ k :: 64 word) \<le> w" by (metis word_and_le2)
  then show "2 ^ k \<le> unat w" using k
    by (simp add: word_le_nat_alt unat_exp_64)
  have le: "j \<le> k" if "bit w j" for j
    using assms(2)[of j] that by (cases "k < j") simp_all
  have "take_bit (Suc k) w = w"
    by (rule bit_eqI) (auto simp: bit_take_bit_iff less_Suc_eq_le le)
  then have "unat w = take_bit (Suc k) (unat w)"
    by (metis unsigned_take_bit_eq)
  then show "unat w < 2 ^ Suc k"
    by (metis take_bit_nat_less_exp)
qed

lemma roundP2_in_range:
  assumes "1 \<le> v" "v \<le> 2 ^ 63"
  shows "\<exists>k<64. roundP2 v = 2 ^ k \<and> unat v \<le> 2 ^ k \<and> (\<forall>j. unat v \<le> 2 ^ j \<longrightarrow> k \<le> j)"
proof (cases "v = 1")
  case True
  have "roundP2 1 = 2 ^ 0" by (simp add: roundP2_def)
  then show ?thesis using True by (intro exI[of _ 0]) simp
next
  case False
  have v0: "v \<noteq> 0" using assms(1) by auto
  have uv: "unat (v - 1) = unat v - 1" using assms(1) by (simp add: unat_sub)
  have "unat v \<noteq> 0" "unat v \<noteq> 1" using v0 False
    by (simp_all add: word_unat_eq_iff)
  then have uv2: "2 \<le> unat v" by simp
  have nz: "v - 1 \<noteq> 0"
  proof
    assume "v - 1 = 0"
    then have "unat (v - 1) = 0" by (simp only: unat_0)
    with uv uv2 show False by simp
  qed
  obtain k where k: "bit (v - 1) k" "\<And>j. k < j \<Longrightarrow> \<not> bit (v - 1) j"
    using top_bit[OF nz] by blast
  have lo: "2 ^ k \<le> unat v - 1" and hi: "unat v - 1 < 2 ^ Suc k"
    using top_bit_bounds[OF k] uv by simp_all
  have "unat v \<le> 2 ^ 63" using assms(2) by (simp add: word_le_nat_alt unat_exp_64)
  then have "(2::nat) ^ k < 2 ^ 63" using lo uv2 by simp
  then have k63: "k < 63" by (rule power_less_imp_less_exp[of 2, rotated]) simp
  have r: "roundP2 v = 2 ^ Suc k"
    by (simp only: roundP2_smear smear_top[OF k] inc_mask_eq_exp)
  have min: "Suc k \<le> j" if "unat v \<le> 2 ^ j" for j
  proof -
    have "(2::nat) ^ k < 2 ^ j" using lo uv2 that by linarith
    then have "k < j" by (rule power_less_imp_less_exp[of 2, rotated]) simp
    then show ?thesis by simp
  qed
  show ?thesis
    using k63 r hi min by (intro exI[of _ "Suc k"]) auto
qed

lemma roundP2_overflow:
  assumes "2 ^ 63 < v"
  shows "roundP2 v = 0"
proof -
  have u: "2 ^ 63 < unat v" using assms by (simp add: word_less_nat_alt unat_exp_64)
  then have "1 \<le> v" by (simp add: word_le_nat_alt)
  then have uv: "unat (v - 1) = unat v - 1" by (simp add: unat_sub)
  have nz: "v - 1 \<noteq> 0"
  proof
    assume "v - 1 = 0"
    then have "unat (v - 1) = 0" by (simp only: unat_0)
    with uv u show False by simp
  qed
  obtain k where k: "bit (v - 1) k" "\<And>j. k < j \<Longrightarrow> \<not> bit (v - 1) j"
    using top_bit[OF nz] by blast
  have k64: "k < 64" using bit_imp_le_length[OF k(1)] by simp
  have "unat (v - 1) < 2 ^ Suc k" using top_bit_bounds[OF k] by simp
  then have "(2::nat) ^ 63 < 2 ^ Suc k" using u uv by simp
  then have "63 < Suc k" by (rule power_less_imp_less_exp[of 2, rotated]) simp
  with k64 have "Suc k = 64" by simp
  then have "roundP2 v = 2 ^ 64"
    by (simp only: roundP2_smear smear_top[OF k] inc_mask_eq_exp)
  then show ?thesis by simp
qed

lemma is_pow2_iff: "is_pow2 p \<longleftrightarrow> (\<exists>k<64. p = 2 ^ k)"
  by (auto simp: is_pow2_def)

lemma not_is_pow2_0: "\<not> is_pow2 0"
  by (simp add: is_pow2_def)

lemma exp_le_exp_64:
  assumes "k \<le> j" "j < 64"
  shows "(2 ^ k :: 64 word) \<le> 2 ^ j"
  using assms by (simp add: word_le_nat_alt unat_exp_64)

lemma roundP2_examples: "roundP2 5 = 8" "roundP2 17 = 32" "roundP2 1 = 1" "roundP2 (2 ^ 63) = 2 ^ 63"
  by (simp_all add: roundP2_def)

section \<open>Pointer tagging: what \<open>Untag\<close> leaves behind\<close>

text \<open>On a 64-bit target \<open>HasTag (Untag p)\<close> is bit 2 of \<open>p\<close>.\<close>

lemma HasTag_Untag_64: "HasTag (Untag (p::64 word)) \<longleftrightarrow> bit p 2"
proof -
  have m: "(7::64 word) = mask 3" by (simp add: mask_eq_exp_minus_1)
  have e: "Untag p AND mask 3 AND mask 3 = 0 \<longleftrightarrow> \<not> bit p 2"
  proof
    assume "Untag p AND mask 3 AND mask 3 = 0"
    then have "\<not> bit (Untag p AND mask 3 AND mask 3) 2" by simp
    then show "\<not> bit p 2" by (simp add: bit_and_iff bit_mask_iff bit_Untag_64)
  next
    assume n: "\<not> bit p 2"
    have "\<not> bit (Untag p AND mask 3 AND mask 3) i" for i
      using n by (cases "i = 2") (auto simp: bit_and_iff bit_mask_iff bit_Untag_64)
    then show "Untag p AND mask 3 AND mask 3 = 0" by (simp add: bit_eq_iff)
  qed
  show ?thesis using e by (simp add: HasTag_def GetTag_def archMAXTAG_64 word_greater_zero_iff m)
qed

text \<open>For tags up to 3, the tags that \<open>archPTRMASK\<close> covers on a 64-bit target, \<open>Untag\<close>
  does recover the aligned address.\<close>

lemma Untag_TaggedPointer_small_64:
  assumes "GetTag (a::64 word) = 0" "t \<le> 3"
  shows "\<exists>p. TaggedPointer a t = Inr (p, None) \<and> Untag p = a"
proof -
  have a: "a AND 7 = 0" using assms(1) by (simp add: GetTag_def archMAXTAG_64)
  have t7: "t \<le> 7" using assms(2) by (simp add: word_le_nat_alt)
  have "t < 2 ^ 2" using assms(2) by (simp add: word_less_nat_alt word_le_nat_alt)
  then have "t AND mask 2 = t" by (simp add: less_mask_eq)
  then have t2: "i < 2" if "bit t i" for i
    using that by (metis bit_and_iff bit_mask_iff)
  have a': "\<not> bit a i" if "i < 2" for i
    using low3_clear[OF a, of i] that by simp
  have t': "\<not> bit t i" if "2 \<le> i" for i
    using t2[of i] that by auto
  have "bit (Untag (a OR t)) i \<longleftrightarrow> bit a i" for i
    using a'[of i] t'[of i] by (cases "2 \<le> i") (simp_all add: bit_Untag_64 bit_or_iff)
  then have "Untag (a OR t) = a"
    by (rule bit_eqI)
  moreover have "TaggedPointer a t = Inr (a OR t, None)"
    using t7 by (simp add: TaggedPointer_def archMAXTAG_64 not_less)
  ultimately show ?thesis by simp
qed

text \<open>On a 32-bit target \<open>archPTRMASK\<close> is \<open>NOT 2\<close>: \<open>Untag\<close> clears bit 1 only, and the
  tag 1 survives it.\<close>

lemma Untag_TaggedPointer_32:
  "GetTag (8::32 word) = 0 \<and> (1::32 word) \<le> of_nat (archMAXTAG TYPE(32))
   \<and> TaggedPointer (8::32 word) 1 = Inr (9, None) \<and> Untag (9::32 word) = 9"
  by (simp add: GetTag_def TaggedPointer_def Untag_def archMAXTAG_32 archPTRMASK_32)

lemma HasTag_Untag_32: "HasTag (Untag (1::32 word))"
  by (simp add: HasTag_def GetTag_def Untag_def archMAXTAG_32 archPTRMASK_32)

lemma TaggedPointer_invalid_tag_32:
  fixes a t :: "32 word"
  assumes "archMAXTAG TYPE(32) < unat t"
  shows "TaggedPointer a t = Inl (Panic EPTRINVALT)"
  using assms by (simp add: TaggedPointer_def archMAXTAG_32 word_less_nat_alt)

section \<open>Two threads: lemmas\<close>

text \<open>One thread alone, run for five steps from the allocation, is a call of \<open>RDCSS\<close>;
  run for three steps from the control read, it is a call of \<open>RDCSSComplete\<close>.\<close>

lemma CompareAndSwapPointer_descs:
  assumes "CompareAndSwapPointer addr old new s = Inr (b, s')"
  shows "descs s' = descs s"
  using assms by (auto simp: CompareAndSwapPointer_def split: option.splits if_splits)

lemma locals_cong: "descs s' = descs s \<Longrightarrow> locals d s' = locals d s"
  by (simp add: locals_def split: sum.splits prod.splits)

lemma RDCSSComplete_locals:
  "RDCSSComplete d s =
     (case locals d s of
        Inl e \<Rightarrow> Inl e
      | Inr (tgdptr, desc) \<Rightarrow>
          (case load (a1 desc) s of
             Inl e \<Rightarrow> Inl e
           | Inr c \<Rightarrow>
               (case (if c = o1 desc
                      then CompareAndSwapPointer (a2 desc) tgdptr (n desc) s
                      else Inr (False, s)) of
                  Inl e \<Rightarrow> Inl e
                | Inr (True, s1) \<Rightarrow> Inr (True, s1)
                | Inr (False, s1) \<Rightarrow>
                    (case CompareAndSwapPointer (a2 desc) tgdptr (o2 desc) s1 of
                       Inl e \<Rightarrow> Inl e
                     | Inr (restored, s2) \<Rightarrow>
                         if \<not> restored
                         then Inr (False, s2\<lparr>logs := logs s2 @ [''[-] restoration failed.'']\<rparr>)
                         else Inr (False, s2)))))"
proof (cases "TaggedPointer d 1")
  case (Inl e)
  then show ?thesis by (simp add: RDCSSComplete_def locals_def)
next
  case (Inr r)
  obtain tgdptr x where r: "r = (tgdptr, x)" by (cases r)
  show ?thesis
  proof (cases "descs s (Untag d)")
    case None
    with Inr r show ?thesis by (simp add: RDCSSComplete_def locals_def)
  next
    case (Some desc)
    with Inr r show ?thesis by (simp add: RDCSSComplete_def locals_def)
  qed
qed

lemma steps_Returned: "steps k call d (Returned b) s = Inr (Returned b, s)"
  by (induction k) (simp_all add: thread_step_def)

lemma steps_Suc_AtRestore:
  "steps (Suc k) call d AtRestore s =
     (case locals d s of
        Inl e \<Rightarrow> Inl e
      | Inr (tgdptr, desc) \<Rightarrow>
          (case CompareAndSwapPointer (a2 desc) tgdptr (o2 desc) s of
             Inl e \<Rightarrow> Inl e
           | Inr (restored, s2) \<Rightarrow>
               if \<not> restored
               then Inr (Returned False, s2\<lparr>logs := logs s2 @ [''[-] restoration failed.'']\<rparr>)
               else Inr (Returned False, s2)))"
proof (cases "locals d s")
  case (Inl e)
  then show ?thesis by (simp add: thread_step_def)
next
  case (Inr r)
  obtain tgdptr desc where r: "r = (tgdptr, desc)" by (cases r)
  show ?thesis
  proof (cases "CompareAndSwapPointer (a2 desc) tgdptr (o2 desc) s")
    case (Inl e)
    with Inr r show ?thesis by (simp add: thread_step_def)
  next
    case res: (Inr q)
    obtain restored s2 where q: "q = (restored, s2)" by (cases q)
    with Inr r res show ?thesis by (cases restored) (simp_all add: thread_step_def steps_Returned)
  qed
qed

lemma steps_AtRestore:
  assumes "0 < k"
  shows "steps k call d AtRestore s =
     (case locals d s of
        Inl e \<Rightarrow> Inl e
      | Inr (tgdptr, desc) \<Rightarrow>
          (case CompareAndSwapPointer (a2 desc) tgdptr (o2 desc) s of
             Inl e \<Rightarrow> Inl e
           | Inr (restored, s2) \<Rightarrow>
               if \<not> restored
               then Inr (Returned False, s2\<lparr>logs := logs s2 @ [''[-] restoration failed.'']\<rparr>)
               else Inr (Returned False, s2)))"
proof -
  obtain j where "k = Suc j" using assms by (cases k) simp_all
  then show ?thesis by (simp only: steps_Suc_AtRestore)
qed

lemma steps_RDCSSComplete:
  "steps 3 call d AtControl s =
     (case RDCSSComplete d s of
        Inl e \<Rightarrow> Inl e
      | Inr (b, s') \<Rightarrow> Inr (Returned b, s'))"
proof (cases "locals d s")
  case (Inl e)
  then show ?thesis by (simp add: RDCSSComplete_locals numeral_eq_Suc thread_step_def)
next
  case (Inr r)
  obtain tgdptr desc where r: "r = (tgdptr, desc)" by (cases r)
  note loc = Inr[unfolded r]
  have three: "(3::nat) = Suc (Suc (Suc 0))" by simp
  show ?thesis
  proof (cases "load (a1 desc) s")
    case (Inl e)
    with loc show ?thesis by (simp add: RDCSSComplete_locals three thread_step_def)
  next
    case ld: (Inr c)
    show ?thesis
    proof (cases "c = o1 desc")
      case False
      have "steps 3 call d AtControl s = steps 2 call d AtRestore s"
        using loc ld False by (simp add: numeral_eq_Suc thread_step_def)
      also have "\<dots> = (case RDCSSComplete d s of Inl e \<Rightarrow> Inl e | Inr (b, s') \<Rightarrow> Inr (Returned b, s'))"
        using loc ld False
        by (simp add: steps_AtRestore RDCSSComplete_locals
            split: sum.splits prod.splits del: steps.simps)
      finally show ?thesis .
    next
      case True
      have st: "steps 3 call d AtControl s = steps 2 call d AtCommit s"
        using loc ld True by (simp add: numeral_eq_Suc thread_step_def)
      show ?thesis
      proof (cases "CompareAndSwapPointer (a2 desc) tgdptr (n desc) s")
        case (Inl e)
        with loc ld True show ?thesis
          unfolding st by (simp add: numeral_eq_Suc thread_step_def RDCSSComplete_locals)
      next
        case cas: (Inr q)
        obtain committed s1 where q: "q = (committed, s1)" by (cases q)
        note cas = cas[unfolded q]
        show ?thesis
        proof (cases committed)
          case True
          with loc ld \<open>c = o1 desc\<close> cas show ?thesis
            unfolding st
            by (simp add: numeral_eq_Suc thread_step_def RDCSSComplete_locals steps_Returned)
        next
          case False
          have l1: "locals d s1 = Inr (tgdptr, desc)"
            using locals_cong[OF CompareAndSwapPointer_descs[OF cas]] loc by simp
          have "steps 2 call d AtCommit s = steps 1 call d AtRestore s1"
            using loc cas False by (simp add: numeral_eq_Suc thread_step_def)
          also have "\<dots> = (case RDCSSComplete d s of Inl e \<Rightarrow> Inl e | Inr (b, s') \<Rightarrow> Inr (Returned b, s'))"
            using loc ld \<open>c = o1 desc\<close> cas False l1
            by (simp add: steps_AtRestore RDCSSComplete_locals
                split: sum.splits prod.splits del: steps.simps)
          finally show ?thesis unfolding st .
        qed
      qed
    qed
  qed
qed

lemma steps_pos:
  assumes "0 < k"
  shows "steps k call d p s =
     (case thread_step call d p s of
        Inl e \<Rightarrow> Inl e
      | Inr (p', s') \<Rightarrow> steps (k - 1) call d p' s')"
proof -
  obtain j where "k = Suc j" using assms by (cases k) simp_all
  then show ?thesis by (simp split: sum.splits prod.splits)
qed

lemma steps_RDCSS:
  "steps 5 \<lparr>a1 = a1', o1 = o1', a2 = a2', o2 = o2', n = n'\<rparr> daddr AtAlloc s =
     (case RDCSS a1' o1' a2' o2' n' daddr s of
        Inl e \<Rightarrow> Inl e
      | Inr (b, s') \<Rightarrow> Inr (Returned b, s'))"
proof -
  let ?call = "\<lparr>a1 = a1', o1 = o1', a2 = a2', o2 = o2', n = n'\<rparr>"
  let ?s0 = "s\<lparr>descs := (descs s)(daddr \<mapsto> ?call)\<rparr>"
  have alloc: "steps 5 ?call daddr AtAlloc s = steps 4 ?call daddr AtInstall ?s0"
    by (simp add: steps_pos[of 5] thread_step_def)
  note four = steps_pos[of 4]
  show ?thesis
  proof (cases "TaggedPointer daddr 1")
    case (Inl e)
    then show ?thesis unfolding alloc by (simp add: four thread_step_def RDCSS_def)
  next
    case (Inr r)
    obtain dptr x where r: "r = (dptr, x)" by (cases r)
    note tp = Inr[unfolded r]
    show ?thesis
    proof (cases "CompareAndSwapPointer a2' o2' dptr ?s0")
      case (Inl e)
      with tp show ?thesis unfolding alloc by (simp add: four thread_step_def RDCSS_def)
    next
      case cas: (Inr q)
      obtain installed s1 where q: "q = (installed, s1)" by (cases q)
      note cas = cas[unfolded q]
      show ?thesis
      proof (cases installed)
        case True
        have "steps 4 ?call daddr AtInstall ?s0 = steps 3 ?call daddr AtControl s1"
          using tp cas True by (simp add: four thread_step_def)
        moreover have "RDCSS a1' o1' a2' o2' n' daddr s = RDCSSComplete daddr s1"
          using tp cas True by (simp add: RDCSS_def)
        ultimately show ?thesis unfolding alloc by (simp only: steps_RDCSSComplete)
      next
        case False
        have "steps 4 ?call daddr AtInstall ?s0 = Inr (Returned False, s1)"
          using tp cas False by (simp add: four thread_step_def steps_Returned)
        moreover have "RDCSS a1' o1' a2' o2' n' daddr s = Inr (False, s1)"
          using tp cas False by (simp add: RDCSS_def)
        ultimately show ?thesis unfolding alloc by simp
      qed
    qed
  qed
qed

text \<open>The invariant holds initially and every step of either thread keeps it.\<close>

lemma locals_64:
  fixes s :: "64 word state"
  assumes "GetTag d = 0" "descs s d = Some desc"
  shows "locals d s = Inr (d OR 1, desc)"
  using assms by (simp add: locals_def TaggedPointer_one_64 Untag_aligned_64)

lemma thread_step_rank:
  assumes "thread_step call d p s = Inr (p', s')"
  shows "rank p' \<le> rank p - 1"
  using assms
  by (cases p)
    (auto simp: thread_step_def split: sum.splits prod.splits if_splits bool.splits)

lemma race_inv_First:
  fixes s :: "64 word state"
  assumes "race_params T1 T2" "race_inv T1 T2 (p1, p2, s)"
  shows "\<exists>p1' s'. thread_step (fst T1) (snd T1) p1 s = Inr (p1', s') \<and> race_inv T1 T2 (p1', p2, s')"
proof (cases p1)
  case AtAlloc
  then show ?thesis using assms
    by (auto simp: thread_step_def race_inv_def race_params_def winning_def losing_def)
next
  case AtInstall
  then show ?thesis using assms
    by (auto simp: thread_step_def race_inv_def race_params_def winning_def losing_def
        TaggedPointer_one_64 CompareAndSwapPointer_def)
next
  case AtControl
  then show ?thesis using assms
    by (auto simp: thread_step_def race_inv_def race_params_def winning_def losing_def locals_64 load_def)
next
  case AtCommit
  then show ?thesis using assms
    by (auto simp: thread_step_def race_inv_def race_params_def winning_def losing_def locals_64
        CompareAndSwapPointer_def)
next
  case AtRestore
  then show ?thesis using assms
    by (auto simp: race_inv_def winning_def losing_def)
next
  case (Returned b)
  then show ?thesis using assms
    by (auto simp: thread_step_def)
qed

lemma race_inv_Second:
  fixes s :: "64 word state"
  assumes "race_params T1 T2" "race_inv T1 T2 (p1, p2, s)"
  shows "\<exists>p2' s'. thread_step (fst T2) (snd T2) p2 s = Inr (p2', s') \<and> race_inv T1 T2 (p1, p2', s')"
proof (cases p2)
  case AtAlloc
  then show ?thesis using assms
    by (auto simp: thread_step_def race_inv_def race_params_def winning_def losing_def)
next
  case AtInstall
  then show ?thesis using assms
    by (auto simp: thread_step_def race_inv_def race_params_def winning_def losing_def
        TaggedPointer_one_64 CompareAndSwapPointer_def)
next
  case AtControl
  then show ?thesis using assms
    by (auto simp: thread_step_def race_inv_def race_params_def winning_def losing_def locals_64 load_def)
next
  case AtCommit
  then show ?thesis using assms
    by (auto simp: thread_step_def race_inv_def race_params_def winning_def losing_def locals_64
        CompareAndSwapPointer_def)
next
  case AtRestore
  then show ?thesis using assms
    by (auto simp: race_inv_def winning_def losing_def)
next
  case (Returned b)
  then show ?thesis using assms
    by (auto simp: thread_step_def)
qed

lemma race_inv_run:
  fixes s :: "64 word state"
  assumes "race_params T1 T2" "race_inv T1 T2 (p1, p2, s)"
  shows "\<exists>p1' p2' s'. run T1 T2 sched (p1, p2, s) = Inr (p1', p2', s')
           \<and> race_inv T1 T2 (p1', p2', s')
           \<and> rank p1' \<le> rank p1 - count_list sched First
           \<and> rank p2' \<le> rank p2 - count_list sched Second"
  using assms(2)
proof (induction sched arbitrary: p1 p2 s)
  case Nil
  then show ?case by simp
next
  case (Cons t sched)
  show ?case
  proof (cases t)
    case First
    obtain q s1 where st: "thread_step (fst T1) (snd T1) p1 s = Inr (q, s1)"
        and inv: "race_inv T1 T2 (q, p2, s1)"
      using race_inv_First[OF assms(1) Cons.prems] by blast
    have r: "rank q \<le> rank p1 - 1" using st by (rule thread_step_rank)
    obtain p1' p2' s' where res: "run T1 T2 sched (q, p2, s1) = Inr (p1', p2', s')"
        "race_inv T1 T2 (p1', p2', s')"
        "rank p1' \<le> rank q - count_list sched First"
        "rank p2' \<le> rank p2 - count_list sched Second"
      using Cons.IH[OF inv] by blast
    have "rank p1' \<le> rank p1 - count_list (t # sched) First"
      using res(3) r First by simp
    moreover have "rank p2' \<le> rank p2 - count_list (t # sched) Second"
      using res(4) First by simp
    moreover have "run T1 T2 (t # sched) (p1, p2, s) = Inr (p1', p2', s')"
      using st res(1) First by simp
    ultimately show ?thesis using res(2) by blast
  next
    case Second
    obtain q s1 where st: "thread_step (fst T2) (snd T2) p2 s = Inr (q, s1)"
        and inv: "race_inv T1 T2 (p1, q, s1)"
      using race_inv_Second[OF assms(1) Cons.prems] by blast
    have r: "rank q \<le> rank p2 - 1" using st by (rule thread_step_rank)
    obtain p1' p2' s' where res: "run T1 T2 sched (p1, q, s1) = Inr (p1', p2', s')"
        "race_inv T1 T2 (p1', p2', s')"
        "rank p1' \<le> rank p1 - count_list sched First"
        "rank p2' \<le> rank q - count_list sched Second"
      using Cons.IH[OF inv] by blast
    have "rank p2' \<le> rank p2 - count_list (t # sched) Second"
      using res(4) r Second by simp
    moreover have "rank p1' \<le> rank p1 - count_list (t # sched) First"
      using res(3) Second by simp
    moreover have "run T1 T2 (t # sched) (p1, p2, s) = Inr (p1', p2', s')"
      using st res(1) Second by simp
    ultimately show ?thesis using res(2) by blast
  qed
qed

lemma rank_0: "rank p = 0 \<longleftrightarrow> (\<exists>b. p = Returned b)"
  by (cases p) simp_all

lemma race_inv_final:
  assumes "race_params T1 T2" "race_inv T1 T2 (p1, p2, s)"
  shows "\<not> (p1 = Returned True \<and> p2 = Returned True)"
    and "p1 = Returned b1 \<Longrightarrow> p2 = Returned b2 \<Longrightarrow>
           b1 \<noteq> b2 \<and> mem s (a2 (fst T1)) = Some (if b1 then n (fst T1) else n (fst T2))"
  using assms
  by (auto simp: race_inv_def race_params_def winning_def losing_def)

section \<open>The claims\<close>

text \<open>
  The theorems of this section are stated for a 64-bit target (\<open>uintptr\<close> is \<open>64 word\<close>).
  \<open>daddr\<close> is the address of the descriptor that \<open>RDCSS\<close> allocates; Go's allocator
  aligns it to the word size, which is the hypothesis \<open>GetTag daddr = 0\<close>.
\<close>

subsection \<open>C1\<close>

text \<open>
  Claim C1. A call \<open>RDCSS(a1, o1, a2, o2, n)\<close> on two distinct mapped words, with no other
  thread running, returns true and leaves \<open>*a2 = n\<close> if and only if \<open>*a2 = o2\<close> and
  \<open>*a1 = o1\<close> held when it started. It returns true exactly in that case, and then memory
  differs from the initial memory only in \<open>*a2 = n\<close>; in every other case it returns
  false and memory is as it was. In particular, when \<open>*a2 \<noteq> o2\<close> the call returns false
  with \<open>*a2\<close> unmodified. The call does not abort.
\<close>

theorem RDCSS_sequential:
  fixes s :: "64 word state"
  assumes "GetTag daddr = 0" and "a1' \<noteq> a2'"
      and "mem s a1' = Some v1" and "mem s a2' = Some v2"
  shows "\<exists>b s'. RDCSS a1' o1' a2' o2' n' daddr s = Inr (b, s')
           \<and> ((b \<and> mem s' a2' = Some n') \<longleftrightarrow> (v2 = o2' \<and> v1 = o1'))
           \<and> (b \<longleftrightarrow> (v2 = o2' \<and> v1 = o1'))
           \<and> (b \<longrightarrow> mem s' = (mem s)(a2' \<mapsto> n'))
           \<and> (\<not> b \<longrightarrow> mem s' = mem s)
           \<and> (v2 \<noteq> o2' \<longrightarrow> \<not> b \<and> mem s' a2' = Some v2)"
  using assms RDCSS_eq[of daddr s a2' v2 a1' v1 o1' o2' n'] by (auto simp: Let_def)

theorem RDCSS_sequential_witness:
  "\<exists>b s'. RDCSS (8::64 word) 1 16 2 3 64 \<lparr>mem = [8 \<mapsto> 1, 16 \<mapsto> 2], descs = Map.empty, logs = []\<rparr>
             = Inr (b, s') \<and> b \<and> mem s' 16 = Some 3"
  using RDCSS_sequential [of 64 8 16 "\<lparr>mem = [8 \<mapsto> 1, 16 \<mapsto> 2], descs = Map.empty, logs = []\<rparr>" 1 2 1 2 3]
  by (auto simp: GetTag_def archMAXTAG_64)

subsection \<open>C2\<close>

text \<open>
  Claim C2. Whenever the descriptor of an \<open>RDCSS\<close> call is installed (the data word holds
  its tagged address) and the control word differs from \<open>o1\<close> when \<open>RDCSSComplete\<close>
  reads it, \<open>RDCSSComplete\<close> returns false and leaves \<open>*a2 = o2\<close>, every other word as
  it was, and writes no log line. This holds in any state at completion time, whatever
  happened to the control word since the install. For a whole call of \<open>RDCSS\<close> without
  interference: if \<open>*a2 = o2\<close> at the start and the control word, read after the
  install, is not \<open>o1\<close>, the call returns false and memory is as it was.
\<close>

theorem RDCSS_rolls_back:
  fixes s s1 :: "64 word state"
  assumes "GetTag daddr = 0"
  shows "(descs s1 daddr = Some desc \<and> mem s1 (a2 desc) = Some (daddr OR 1)
            \<and> mem s1 (a1 desc) = Some c1 \<and> c1 \<noteq> o1 desc
            \<longrightarrow> (\<exists>s'. RDCSSComplete daddr s1 = Inr (False, s') \<and> mem s' (a2 desc) = Some (o2 desc)
                    \<and> (\<forall>x. x \<noteq> a2 desc \<longrightarrow> mem s' x = mem s1 x) \<and> logs s' = logs s1))
       \<and> (mem s a2' = Some o2' \<and> ((mem s)(a2' \<mapsto> daddr OR 1)) a1' = Some c \<and> c \<noteq> o1'
            \<longrightarrow> (\<exists>s'. RDCSS a1' o1' a2' o2' n' daddr s = Inr (False, s') \<and> mem s' a2' = Some o2'
                    \<and> mem s' = mem s \<and> logs s' = logs s))"
  using assms RDCSS_eq[of daddr s a2' o2' a1' c o1' o2' n']
    RDCSSComplete_installed[of daddr s1 desc c1]
  by (auto simp: Let_def)

theorem RDCSS_rolls_back_witness:
  "(\<exists>s'. RDCSSComplete (64::64 word)
            \<lparr>mem = [8 \<mapsto> 7, 16 \<mapsto> 65],
             descs = [64 \<mapsto> \<lparr>a1 = 8, o1 = 1, a2 = 16, o2 = 2, n = 3\<rparr>], logs = []\<rparr> = Inr (False, s')
          \<and> mem s' 16 = Some 2)
   \<and> (\<exists>s'. RDCSS (8::64 word) 1 16 2 3 64 \<lparr>mem = [8 \<mapsto> 7, 16 \<mapsto> 2], descs = Map.empty, logs = []\<rparr>
             = Inr (False, s') \<and> mem s' 16 = Some 2)"
  using RDCSS_rolls_back [of 64
      "\<lparr>mem = [8 \<mapsto> 7, 16 \<mapsto> 65], descs = [64 \<mapsto> \<lparr>a1 = 8, o1 = 1, a2 = 16, o2 = 2, n = 3\<rparr>], logs = []\<rparr>"
      "\<lparr>a1 = 8, o1 = 1, a2 = 16, o2 = 2, n = 3\<rparr>" 7
      "\<lparr>mem = [8 \<mapsto> 7, 16 \<mapsto> 2], descs = Map.empty, logs = []\<rparr>" 16 2 8 7 1 3]
  by (auto simp: GetTag_def archMAXTAG_64)

subsection \<open>C3\<close>

text \<open>
  Claim C3 says that of two threads that concurrently run \<open>RDCSS\<close> on the same control and
  data addresses with consistent expected values, exactly one commits. Two calls with
  \<open>*a1 = o1 = 1\<close> and \<open>*a2 = o2 = 2\<close>, the first with the new value 2, the second with the
  new value 3: the second thread allocates, the first thread allocates, installs,
  reads the control word and commits, which leaves \<open>*a2 = 2\<close>, and then the second thread
  installs, reads the control word and commits. Both calls return true.
\<close>

theorem RDCSS_race_both_commit:
  "run (\<lparr>a1 = 8, o1 = 1, a2 = 16, o2 = 2, n = 2\<rparr>, 64) (\<lparr>a1 = 8, o1 = 1, a2 = 16, o2 = 2, n = 3\<rparr>, 128)
       [Second, First, First, First, First, Second, Second, Second]
       (AtAlloc, AtAlloc, \<lparr>mem = [8 \<mapsto> 1, 16 \<mapsto> 2::64 word], descs = Map.empty, logs = []\<rparr>)
     = Inr (Returned True, Returned True,
            \<lparr>mem = [8 \<mapsto> 1, 16 \<mapsto> 3],
             descs = [128 \<mapsto> \<lparr>a1 = 8, o1 = 1, a2 = 16, o2 = 2, n = 3\<rparr>,
                      64 \<mapsto> \<lparr>a1 = 8, o1 = 1, a2 = 16, o2 = 2, n = 2\<rparr>],
             logs = []\<rparr>)"
  by (simp add: GetTag_def archMAXTAG_64 thread_step_def locals_def TaggedPointer_def Untag_def
      archPTRMASK_64 CompareAndSwapPointer_def load_def)

text \<open>
  Claim C3, amended. Two threads run \<open>RDCSS\<close> on the same control address \<open>a1\<close> and data
  address \<open>a2 \<noteq> a1\<close> with the same expected values, which hold in the initial memory,
  and with new values \<open>n1\<close> and \<open>n2\<close> that both differ from \<open>o2\<close>; their descriptors are at
  distinct aligned addresses, and \<open>o2\<close> is the tagged address of neither. Then in every
  interleaving of their atomic steps no step aborts, the two calls never both return
  true, and when both have returned exactly one of them has returned true and \<open>*a2\<close>
  holds the new value of that call. Both have returned as soon as each thread has been
  scheduled five times.
\<close>

theorem RDCSS_race:
  fixes s :: "64 word state"
  assumes "a1' \<noteq> a2'" and "mem s a1' = Some o1'" and "mem s a2' = Some o2'"
      and "GetTag d1 = 0" and "GetTag d2 = 0" and "d1 \<noteq> d2"
      and "o2' \<noteq> d1 OR 1" and "o2' \<noteq> d2 OR 1"
      and "n1 \<noteq> o2'" and "n2 \<noteq> o2'"
  shows "\<exists>p1 p2 s'.
           run (\<lparr>a1 = a1', o1 = o1', a2 = a2', o2 = o2', n = n1\<rparr>, d1)
               (\<lparr>a1 = a1', o1 = o1', a2 = a2', o2 = o2', n = n2\<rparr>, d2)
               sched (AtAlloc, AtAlloc, s) = Inr (p1, p2, s')
           \<and> \<not> (p1 = Returned True \<and> p2 = Returned True)
           \<and> (\<forall>b1 b2. p1 = Returned b1 \<and> p2 = Returned b2 \<longrightarrow>
                 b1 \<noteq> b2 \<and> mem s' a2' = Some (if b1 then n1 else n2))
           \<and> (5 \<le> count_list sched First \<and> 5 \<le> count_list sched Second \<longrightarrow>
                 (\<exists>b1 b2. p1 = Returned b1 \<and> p2 = Returned b2))"
proof -
  let ?T1 = "(\<lparr>a1 = a1', o1 = o1', a2 = a2', o2 = o2', n = n1\<rparr>, d1)"
  let ?T2 = "(\<lparr>a1 = a1', o1 = o1', a2 = a2', o2 = o2', n = n2\<rparr>, d2)"
  have par: "race_params ?T1 ?T2" using assms by (simp add: race_params_def)
  have inv0: "race_inv ?T1 ?T2 (AtAlloc, AtAlloc, s)" using assms by (simp add: race_inv_def)
  obtain p1 p2 s' where res: "run ?T1 ?T2 sched (AtAlloc, AtAlloc, s) = Inr (p1, p2, s')"
      "race_inv ?T1 ?T2 (p1, p2, s')"
      "rank p1 \<le> rank AtAlloc - count_list sched First"
      "rank p2 \<le> rank AtAlloc - count_list sched Second"
    using race_inv_run[OF par inv0] by blast
  have fin: "\<exists>b1 b2. p1 = Returned b1 \<and> p2 = Returned b2"
    if "5 \<le> count_list sched First \<and> 5 \<le> count_list sched Second"
  proof -
    have "rank p1 = 0" "rank p2 = 0" using res(3,4) that by simp_all
    then show ?thesis by (simp add: rank_0)
  qed
  have one: "\<not> (p1 = Returned True \<and> p2 = Returned True)"
    using race_inv_final(1)[OF par res(2)] .
  have val: "b1 \<noteq> b2 \<and> mem s' a2' = Some (if b1 then n1 else n2)"
    if "p1 = Returned b1 \<and> p2 = Returned b2" for b1 b2
    using race_inv_final(2)[OF par res(2), of b1 b2] that by simp
  have v: "\<forall>b1 b2. p1 = Returned b1 \<and> p2 = Returned b2 \<longrightarrow>
              b1 \<noteq> b2 \<and> mem s' a2' = Some (if b1 then n1 else n2)"
    using val by (intro allI impI)
  have f: "5 \<le> count_list sched First \<and> 5 \<le> count_list sched Second \<longrightarrow>
             (\<exists>b1 b2. p1 = Returned b1 \<and> p2 = Returned b2)"
    using fin by (intro impI)
  show ?thesis
    apply (rule exI[of _ p1])
    apply (rule exI[of _ p2])
    apply (rule exI[of _ s'])
    using res(1) one v f by (intro conjI)
qed

theorem RDCSS_race_witness:
  "\<exists>s'. run (\<lparr>a1 = 8, o1 = 1, a2 = 16, o2 = 2, n = 3\<rparr>, 64) (\<lparr>a1 = 8, o1 = 1, a2 = 16, o2 = 2, n = 4\<rparr>, 128)
        [First, Second, Second, First, First, Second, First, Second, First, Second]
        (AtAlloc, AtAlloc, \<lparr>mem = [8 \<mapsto> 1, 16 \<mapsto> 2::64 word], descs = Map.empty, logs = []\<rparr>)
      = Inr (Returned False, Returned True, s') \<and> mem s' 16 = Some 4"
  using RDCSS_race [of 8 16 "\<lparr>mem = [8 \<mapsto> 1, 16 \<mapsto> 2::64 word], descs = Map.empty, logs = []\<rparr>"
      1 2 64 128 3 4 "[First, Second, Second, First, First, Second, First, Second, First, Second]"]
  by (simp add: GetTag_def archMAXTAG_64 thread_step_def locals_def TaggedPointer_def Untag_def
      archPTRMASK_64 CompareAndSwapPointer_def load_def)

subsection \<open>C4\<close>

text \<open>
  Claim C4 says that \<open>Untag (TaggedPointer a t) = a\<close> and \<open>GetTag (TaggedPointer a t) = t\<close>
  for every aligned address \<open>a\<close> and every tag \<open>t \<le> archMAXTAG\<close>. The code at the aligned
  address 8 with the valid tag 4: \<open>TaggedPointer\<close> returns 12, and \<open>Untag 12\<close> is 12, not 8.
  \<open>archPTRMASK\<close> is \<open>NOT 3\<close> and clears two bits, while \<open>archMAXTAG\<close> is 7 and tags
  occupy three. (The \<open>GetTag\<close> half of the claim holds: \<open>GetTag_TaggedPointer_64\<close>.)
\<close>

theorem Untag_TaggedPointer_tag4:
  "GetTag (8::64 word) = 0 \<and> (4::64 word) \<le> of_nat (archMAXTAG TYPE(64))
   \<and> TaggedPointer (8::64 word) 4 = Inr (12, None) \<and> Untag (12::64 word) = 12
   \<and> Untag (12::64 word) \<noteq> 8 \<and> GetTag (12::64 word) = 4"
  by (simp add: GetTag_def TaggedPointer_def Untag_def archMAXTAG_64 archPTRMASK_64)

subsection \<open>C5\<close>

text \<open>
  Claim C5 says that \<open>HasTag (Untag p)\<close> is false for every \<open>p\<close>. The code at \<open>p = 4\<close>:
  \<open>Untag 4\<close> is 4, because \<open>archPTRMASK\<close> keeps bit 2, and \<open>HasTag 4\<close> is true, because
  \<open>archMAXTAG = 7\<close> covers bit 2.
\<close>

theorem HasTag_Untag_4: "Untag (4::64 word) = 4 \<and> HasTag (Untag (4::64 word))"
  by (simp add: HasTag_def GetTag_def Untag_def archMAXTAG_64 archPTRMASK_64)

subsection \<open>C6\<close>

text \<open>
  Claim C6. For every pointer \<open>a\<close> and every tag \<open>t\<close> greater than \<open>archMAXTAG\<close>,
  \<open>TaggedPointer a t\<close> panics with \<open>EPTRINVALT\<close> and returns no pointer.
\<close>

theorem TaggedPointer_invalid_tag:
  fixes a t :: "64 word"
  assumes "archMAXTAG TYPE(64) < unat t"
  shows "TaggedPointer a t = Inl (Panic EPTRINVALT) \<and> (\<forall>r. TaggedPointer a t \<noteq> Inr r)"
  using assms by (simp add: TaggedPointer_def archMAXTAG_64 word_less_nat_alt)

theorem TaggedPointer_invalid_tag_witness:
  "archMAXTAG TYPE(64) < unat (8::64 word) \<and> TaggedPointer (4096::64 word) 8 = Inl (Panic EPTRINVALT)"
  using TaggedPointer_invalid_tag [of 8 4096] by (simp add: archMAXTAG_64)

subsection \<open>C7\<close>

text \<open>
  Claim C7 reads the parameters of \<open>CASSliceSlot(addr, data, target, index, ptrsize)\<close> as
  its comment documents them: \<open>data\<close> is the old value to compare, \<open>target\<close> the new
  value. The code on a slice whose data starts at address 32, slot 1 of size 8 (address
  40), called with \<open>data = 7\<close> and \<open>target = 9\<close>: when the slot holds 7, the documented
  old value, the call returns false and the slot still holds 7; when the slot holds 9,
  the call returns true and the slot holds 7.
\<close>

theorem CASSliceSlot_arguments_swapped:
  "CASSliceSlot (16::64 word) 7 9 1 8 \<lparr>mem = [16 \<mapsto> 32, 40 \<mapsto> 7], descs = Map.empty, logs = []\<rparr>
     = Inr (False, \<lparr>mem = [16 \<mapsto> 32, 40 \<mapsto> 7], descs = Map.empty, logs = []\<rparr>)
   \<and> CASSliceSlot (16::64 word) 7 9 1 8 \<lparr>mem = [16 \<mapsto> 32, 40 \<mapsto> 9], descs = Map.empty, logs = []\<rparr>
     = Inr (True, \<lparr>mem = [16 \<mapsto> 32, 40 \<mapsto> 7], descs = Map.empty, logs = []\<rparr>)"
  by (simp add: CASSliceSlot_def load_def CompareAndSwapPointer_def)

subsection \<open>C8\<close>

text \<open>
  Claim C8. \<open>SetSliceSlot(addr, index, ptrsize, d)\<close>, where the slot at \<open>index\<close> is a mapped
  word: on a slot that holds nil it writes \<open>d\<close> into that slot, changes nothing else and
  returns true; on a slot that holds anything else it returns false and changes nothing.
\<close>

theorem SetSliceSlot_iff_nil:
  assumes "OffsetSliceSlot addr index ptrsize s = Inr slot" and "mem s slot = Some v"
  shows "(v = 0 \<longrightarrow> SetSliceSlot addr index ptrsize d s = Inr (True, s\<lparr>mem := (mem s)(slot \<mapsto> d)\<rparr>))
       \<and> (v \<noteq> 0 \<longrightarrow> SetSliceSlot addr index ptrsize d s = Inr (False, s))"
  using assms
  by (auto simp: SetSliceSlot_def OffsetSliceSlot_def CASSliceSlot_def CompareAndSwapPointer_def
      load_def Let_def split: option.splits)

theorem SetSliceSlot_iff_nil_witness:
  "SetSliceSlot (16::64 word) 1 8 5 \<lparr>mem = [16 \<mapsto> 32, 40 \<mapsto> 0], descs = Map.empty, logs = []\<rparr>
     = Inr (True, \<lparr>mem = [16 \<mapsto> 32, 40 \<mapsto> 5], descs = Map.empty, logs = []\<rparr>)
   \<and> SetSliceSlot (16::64 word) 1 8 5 \<lparr>mem = [16 \<mapsto> 32, 40 \<mapsto> 9], descs = Map.empty, logs = []\<rparr>
     = Inr (False, \<lparr>mem = [16 \<mapsto> 32, 40 \<mapsto> 9], descs = Map.empty, logs = []\<rparr>)"
  using SetSliceSlot_iff_nil [of "16::64 word" 1 8 "\<lparr>mem = [16 \<mapsto> 32, 40 \<mapsto> 0], descs = Map.empty, logs = []\<rparr>" 40 0 5]
        SetSliceSlot_iff_nil [of "16::64 word" 1 8 "\<lparr>mem = [16 \<mapsto> 32, 40 \<mapsto> 9], descs = Map.empty, logs = []\<rparr>" 40 9 5]
  by (simp add: OffsetSliceSlot_def load_def)

subsection \<open>C9\<close>

text \<open>
  Claim C9 says, for every input \<open>v\<close>, that \<open>roundP2 v\<close> is \<open>v\<close> when \<open>v\<close> is a power of
  two and the next power of two greater than \<open>v\<close> otherwise. At \<open>v = 0\<close>, which is not a
  power of two, \<open>roundP2\<close> returns 0: not greater than \<open>v\<close> and not a power of two.
\<close>

theorem roundP2_zero_counterexample:
  "\<not> is_pow2 0 \<and> roundP2 0 = 0 \<and> \<not> (0 < roundP2 0) \<and> \<not> is_pow2 (roundP2 0)"
  by (simp add: roundP2_def is_pow2_def)

text \<open>
  Claim C9, amended. For every \<open>v\<close> with \<open>1 \<le> v \<le> 2\<^sup>6\<^sup>3\<close>, \<open>roundP2 v\<close> is the least power
  of two that is at least \<open>v\<close>: it is \<open>v\<close> itself when \<open>v\<close> is a power of two, and
  greater than \<open>v\<close> otherwise.
\<close>

theorem roundP2_least_power_of_two:
  assumes "1 \<le> v" and "v \<le> 2 ^ 63"
  shows "is_pow2 (roundP2 v) \<and> v \<le> roundP2 v
         \<and> (\<forall>p. is_pow2 p \<and> v \<le> p \<longrightarrow> roundP2 v \<le> p)
         \<and> (is_pow2 v \<longrightarrow> roundP2 v = v)
         \<and> (\<not> is_pow2 v \<longrightarrow> v < roundP2 v)"
proof -
  obtain k where k: "k < 64" "roundP2 v = 2 ^ k" "unat v \<le> 2 ^ k"
      and least: "\<And>j. unat v \<le> 2 ^ j \<Longrightarrow> k \<le> j"
    using roundP2_in_range[OF assms] by blast
  have p: "is_pow2 (roundP2 v)" using k by (auto simp: is_pow2_iff)
  have ge: "v \<le> roundP2 v" using k by (simp add: word_le_nat_alt unat_exp_64)
  have min: "roundP2 v \<le> p" if "is_pow2 p" "v \<le> p" for p
  proof -
    from that(1) obtain j where j: "j < 64" "p = 2 ^ j" by (auto simp: is_pow2_iff)
    with that(2) have "unat v \<le> 2 ^ j" by (simp add: word_le_nat_alt unat_exp_64)
    then have "k \<le> j" by (rule least)
    then show ?thesis using j k by (simp add: exp_le_exp_64)
  qed
  have same: "roundP2 v = v" if "is_pow2 v"
    using min[OF that] ge by simp
  have "v < roundP2 v" if "\<not> is_pow2 v"
    using ge p that by (cases "v = roundP2 v") auto
  with p ge min same show ?thesis by blast
qed

theorem roundP2_least_power_of_two_witness:
  "(1::64 word) \<le> 5 \<and> (5::64 word) \<le> 2 ^ 63 \<and> is_pow2 (roundP2 5) \<and> roundP2 5 = 8 \<and> \<not> is_pow2 5
   \<and> (5::64 word) < roundP2 5"
proof -
  have h: "(1::64 word) \<le> 5" "(5::64 word) \<le> 2 ^ 63" by simp_all
  have "roundP2 5 = 8" by (simp add: roundP2_def)
  moreover have "(5::64 word) \<noteq> 8" by simp
  ultimately have "\<not> is_pow2 5" using roundP2_least_power_of_two[OF h] by auto
  then show ?thesis using h roundP2_least_power_of_two[OF h] \<open>roundP2 5 = 8\<close> by simp
qed

subsection \<open>C10\<close>

text \<open>
  Claim C10. \<open>roundP2 0 = 0\<close>, and \<open>roundP2 v = 0\<close> for every \<open>v\<close> greater than \<open>2\<^sup>6\<^sup>3\<close>;
  0 is not a power of two.
\<close>

theorem roundP2_edges:
  "roundP2 0 = 0 \<and> (2 ^ 63 < v \<longrightarrow> roundP2 v = 0) \<and> \<not> is_pow2 0"
  using roundP2_overflow[of v] by (simp add: roundP2_def is_pow2_def)

theorem roundP2_edges_witness:
  "(2 ^ 63 :: 64 word) < 9223372036854775809 \<and> roundP2 9223372036854775809 = 0"
  using roundP2_edges[of 9223372036854775809] by simp

end
